theory Spec2Isabelle
  imports Main
begin

section \<open>Data model of log.h and log.c\<close>

text \<open>
  The severity enum of log.h. The C comparisons \<^verbatim>\<open>level >= L.level\<close> and
  \<^verbatim>\<open>level >= cb->level\<close> compare the enum's integer values, given by \<open>level_int\<close>.
\<close>

datatype log_level = LOG_TRACE | LOG_DEBUG | LOG_INFO | LOG_WARN | LOG_ERROR | LOG_FATAL

fun level_int :: "log_level \<Rightarrow> nat" where
  "level_int LOG_TRACE = 0"
| "level_int LOG_DEBUG = 1"
| "level_int LOG_INFO = 2"
| "level_int LOG_WARN = 3"
| "level_int LOG_ERROR = 4"
| "level_int LOG_FATAL = 5"

text \<open>
  Pointers. A \<^verbatim>\<open>void *\<close> is the null pointer, the stream \<^verbatim>\<open>stderr\<close>, or some other
  address. A sink function pointer (\<^verbatim>\<open>log_LogFn\<close>) is null, one of the two static
  functions of log.c, or a function of the caller. A lock function pointer
  (\<^verbatim>\<open>log_LockFn\<close>) is \<open>None\<close> when null.
\<close>

datatype voidptr = NULL | STDERR | Ptr nat

datatype log_LogFn = NULL_fn | stdout_callback | file_callback | user_fn nat

type_synonym log_LockFn = "nat option"

text \<open>A broken-down local time (\<^verbatim>\<open>struct tm\<close>), kept abstract.\<close>

type_synonym tm = nat

datatype va_arg = Int_arg int | Str_arg string

text \<open>\<^verbatim>\<open>log_Event\<close> of log.h; \<open>ev_time\<close> is \<open>None\<close> for the null pointer.\<close>

record log_Event =
  ev_ap :: "va_arg list"
  ev_fmt :: string
  ev_file :: string
  ev_time :: "tm option"
  ev_udata :: voidptr
  ev_line :: int
  ev_level :: log_level

text \<open>\<^verbatim>\<open>Callback\<close> of log.c.\<close>

record Callback =
  cb_fn :: log_LogFn
  cb_udata :: voidptr
  cb_level :: log_level

text \<open>The static struct \<^verbatim>\<open>L\<close> of log.c.\<close>

record registry =
  L_udata :: voidptr
  L_lock :: log_LockFn
  L_level :: log_level
  L_quiet :: bool
  L_callbacks :: "Callback list"

definition MAX_CALLBACKS :: nat where
  "MAX_CALLBACKS = 32"

text \<open>
  What a call does outside the registry is recorded as a sequence of actions, oldest
  first: a call of the lock hook with its two arguments, a reading of the system clock
  (\<^verbatim>\<open>time\<close> followed by \<^verbatim>\<open>localtime\<close>) with the value read, and a call of a sink with the
  event it is handed. A sink call also records which sink it is: the console sink of
  \<^verbatim>\<open>log_log\<close>, or the slot of \<^verbatim>\<open>L.callbacks\<close> the loop is at.

  The hook and the sinks are external code. In the functions of log.c as defined first,
  which record these calls, they are taken not to write to \<^verbatim>\<open>L\<close>, to
  the event they are handed or to the broken-down time it points to, as the two sinks of
  log.c do not (they only read the argument list, which \<^verbatim>\<open>va_start\<close> sets again before
  each call); and \<^verbatim>\<open>localtime\<close> is taken to succeed on the current time, so that a read
  of the clock leaves a non-null \<^verbatim>\<open>ev->time\<close>. A second set of definitions runs the
  caller's code, which may then write to \<^verbatim>\<open>L\<close>.
\<close>

datatype sink = Console | Slot nat

datatype action =
    Lock_hook nat bool voidptr
  | Clock_read tm
  | Sink_call sink log_LogFn log_Event

text \<open>
  The state of the program: the struct \<^verbatim>\<open>L\<close>, how many times the clock has been read so
  far, and the actions so far.
\<close>

record state =
  L :: registry
  clock_reads :: nat
  trace :: "action list"

text \<open>Static storage is zero-initialised.\<close>

definition Callback_zero :: Callback where
  "Callback_zero = \<lparr>cb_fn = NULL_fn, cb_udata = NULL, cb_level = LOG_TRACE\<rparr>"

definition L_init :: registry where
  "L_init = \<lparr>L_udata = NULL, L_lock = None, L_level = LOG_TRACE, L_quiet = False,
     L_callbacks = replicate MAX_CALLBACKS Callback_zero\<rparr>"

definition state_init :: state where
  "state_init = \<lparr>L = L_init, clock_reads = 0, trace = []\<rparr>"

definition emit :: "action \<Rightarrow> state \<Rightarrow> state" where
  "emit a s = s\<lparr>trace := trace s @ [a]\<rparr>"

section \<open>The functions of log.c\<close>

definition level_strings :: "string list" where
  "level_strings = [''TRACE'', ''DEBUG'', ''INFO'', ''WARN'', ''ERROR'', ''FATAL'']"

definition lock :: "state \<Rightarrow> state" where
  "lock s = (case L_lock (L s) of
       None \<Rightarrow> s
     | Some f \<Rightarrow> emit (Lock_hook f True (L_udata (L s))) s)"

definition unlock :: "state \<Rightarrow> state" where
  "unlock s = (case L_lock (L s) of
       None \<Rightarrow> s
     | Some f \<Rightarrow> emit (Lock_hook f False (L_udata (L s))) s)"

definition log_level_string :: "log_level \<Rightarrow> string" where
  "log_level_string level = level_strings ! level_int level"

definition log_set_lock :: "log_LockFn \<Rightarrow> voidptr \<Rightarrow> state \<Rightarrow> state" where
  "log_set_lock fn udata s = s\<lparr>L := (L s)\<lparr>L_lock := fn, L_udata := udata\<rparr>\<rparr>"

definition log_set_level :: "log_level \<Rightarrow> state \<Rightarrow> state" where
  "log_set_level level s = s\<lparr>L := (L s)\<lparr>L_level := level\<rparr>\<rparr>"

definition log_set_quiet :: "bool \<Rightarrow> state \<Rightarrow> state" where
  "log_set_quiet enable s = s\<lparr>L := (L s)\<lparr>L_quiet := enable\<rparr>\<rparr>"

text \<open>
  The loop of \<^verbatim>\<open>log_add_callback\<close>, from index \<open>i\<close>: the first slot whose \<^verbatim>\<open>fn\<close> is null
  is overwritten and 0 is returned; -1 when the loop runs out.
\<close>

function log_add_callback_loop ::
  "log_LogFn \<Rightarrow> voidptr \<Rightarrow> log_level \<Rightarrow> nat \<Rightarrow> state \<Rightarrow> int \<times> state" where
  "log_add_callback_loop fn udata level i s =
     (if i < MAX_CALLBACKS then
        (if cb_fn (L_callbacks (L s) ! i) = NULL_fn then
           (0, s\<lparr>L := (L s)\<lparr>L_callbacks := (L_callbacks (L s))
                   [i := \<lparr>cb_fn = fn, cb_udata = udata, cb_level = level\<rparr>]\<rparr>\<rparr>)
         else log_add_callback_loop fn udata level (Suc i) s)
      else (- 1, s))"
  by pat_completeness auto
termination
  by (relation "measure (\<lambda>(fn, udata, level, i, s). MAX_CALLBACKS - i)") auto

declare log_add_callback_loop.simps [simp del]

definition log_add_callback ::
  "log_LogFn \<Rightarrow> voidptr \<Rightarrow> log_level \<Rightarrow> state \<Rightarrow> int \<times> state" where
  "log_add_callback fn udata level s = log_add_callback_loop fn udata level 0 s"

definition log_add_fp :: "voidptr \<Rightarrow> log_level \<Rightarrow> state \<Rightarrow> int \<times> state" where
  "log_add_fp fp level s = log_add_callback file_callback fp level s"

text \<open>
  \<^verbatim>\<open>init_event\<close>: the clock is read only while the event's time is null. \<open>clk k\<close> is
  what the clock yields when it is read for the \<open>k\<close>-th time.
\<close>

definition init_event ::
  "(nat \<Rightarrow> tm) \<Rightarrow> voidptr \<Rightarrow> log_Event \<times> state \<Rightarrow> log_Event \<times> state" where
  "init_event clk udata es =
     (let (ev, s) = es;
          (ev1, s1) =
            (if ev_time ev = None then
               (let t = clk (clock_reads s)
                in (ev\<lparr>ev_time := Some t\<rparr>,
                    emit (Clock_read t) (s\<lparr>clock_reads := Suc (clock_reads s)\<rparr>)))
             else (ev, s))
      in (ev1\<lparr>ev_udata := udata\<rparr>, s1))"

text \<open>
  One sink invocation of \<^verbatim>\<open>log_log\<close>: \<^verbatim>\<open>init_event\<close>, \<^verbatim>\<open>va_start\<close>, the call, \<^verbatim>\<open>va_end\<close>.
  Both places of \<^verbatim>\<open>log_log\<close> that call a sink have this shape.
\<close>

definition call_sink ::
  "(nat \<Rightarrow> tm) \<Rightarrow> va_arg list \<Rightarrow> sink \<Rightarrow> log_LogFn \<Rightarrow> voidptr \<Rightarrow>
     log_Event \<times> state \<Rightarrow> log_Event \<times> state" where
  "call_sink clk args k fn udata es =
     (let (ev, s) = init_event clk udata es;
          ev1 = ev\<lparr>ev_ap := args\<rparr>
      in (ev1, emit (Sink_call k fn ev1) s))"

text \<open>The loop over \<^verbatim>\<open>L.callbacks\<close> in \<^verbatim>\<open>log_log\<close>, from index \<open>i\<close>.\<close>

function log_log_loop ::
  "(nat \<Rightarrow> tm) \<Rightarrow> log_level \<Rightarrow> va_arg list \<Rightarrow> nat \<Rightarrow> log_Event \<times> state \<Rightarrow>
     log_Event \<times> state" where
  "log_log_loop clk level args i es =
     (if i < MAX_CALLBACKS \<and> cb_fn (L_callbacks (L (snd es)) ! i) \<noteq> NULL_fn then
        (let cb = L_callbacks (L (snd es)) ! i
         in log_log_loop clk level args (Suc i)
              (if level_int level \<ge> level_int (cb_level cb)
               then call_sink clk args (Slot i) (cb_fn cb) (cb_udata cb) es
               else es))
      else es)"
  by pat_completeness auto
termination
  by (relation "measure (\<lambda>(clk, level, args, i, es). MAX_CALLBACKS - i)") auto

declare log_log_loop.simps [simp del]

definition log_log ::
  "(nat \<Rightarrow> tm) \<Rightarrow> log_level \<Rightarrow> string \<Rightarrow> int \<Rightarrow> string \<Rightarrow> va_arg list \<Rightarrow> state \<Rightarrow> state" where
  "log_log clk level file line fmt args s =
     (let ev = \<lparr>ev_ap = [], ev_fmt = fmt, ev_file = file, ev_time = None,
                ev_udata = NULL, ev_line = line, ev_level = level\<rparr>;
          s1 = lock s;
          es2 = (if \<not> L_quiet (L s1) \<and> level_int level \<ge> level_int (L_level (L s1))
                 then call_sink clk args Console stdout_callback STDERR (ev, s1)
                 else (ev, s1));
          es3 = log_log_loop clk level args 0 es2
      in unlock (snd es3))"

section \<open>The functions of log.c with the external code run\<close>

text \<open>
  The definitions above record a call of the lock hook or of a sink and go on. Those of
  this section also run the code called, which is code of the caller and may do anything
  to the state, the struct \<^verbatim>\<open>L\<close> included (it may call the functions of log.c), and to the
  event it is handed. \<open>user n\<close> is what the caller's sink function \<open>user_fn n\<close> does,
  and \<open>hook f b u\<close> what the lock function \<open>f\<close> does when called with \<open>b\<close> and \<open>u\<close>.
  The two sinks of log.c, \<^verbatim>\<open>stdout_callback\<close> and \<^verbatim>\<open>file_callback\<close>, write to their stream
  and leave \<^verbatim>\<open>L\<close> and the event as they are. The loop reads \<^verbatim>\<open>L.callbacks[i]\<close> from the
  state as it is when the loop gets to \<open>i\<close>, and \<^verbatim>\<open>unlock\<close> reads \<^verbatim>\<open>L.lock\<close> from the state
  as the sinks have left it.
\<close>

definition run_sink ::
  "(nat \<Rightarrow> log_Event \<times> state \<Rightarrow> log_Event \<times> state) \<Rightarrow> log_LogFn \<Rightarrow>
     log_Event \<times> state \<Rightarrow> log_Event \<times> state" where
  "run_sink user fn es = (case fn of user_fn n \<Rightarrow> user n es | _ \<Rightarrow> es)"

definition lock_run :: "(nat \<Rightarrow> bool \<Rightarrow> voidptr \<Rightarrow> state \<Rightarrow> state) \<Rightarrow> state \<Rightarrow> state" where
  "lock_run hook s = (case L_lock (L s) of
       None \<Rightarrow> s
     | Some f \<Rightarrow> hook f True (L_udata (L s)) (emit (Lock_hook f True (L_udata (L s))) s))"

definition unlock_run :: "(nat \<Rightarrow> bool \<Rightarrow> voidptr \<Rightarrow> state \<Rightarrow> state) \<Rightarrow> state \<Rightarrow> state" where
  "unlock_run hook s = (case L_lock (L s) of
       None \<Rightarrow> s
     | Some f \<Rightarrow> hook f False (L_udata (L s)) (emit (Lock_hook f False (L_udata (L s))) s))"

definition call_sink_run ::
  "(nat \<Rightarrow> log_Event \<times> state \<Rightarrow> log_Event \<times> state) \<Rightarrow> (nat \<Rightarrow> tm) \<Rightarrow> va_arg list \<Rightarrow>
     sink \<Rightarrow> log_LogFn \<Rightarrow> voidptr \<Rightarrow> log_Event \<times> state \<Rightarrow> log_Event \<times> state" where
  "call_sink_run user clk args k fn udata es =
     (let (ev, s) = init_event clk udata es;
          ev1 = ev\<lparr>ev_ap := args\<rparr>
      in run_sink user fn (ev1, emit (Sink_call k fn ev1) s))"

function log_log_loop_run ::
  "(nat \<Rightarrow> log_Event \<times> state \<Rightarrow> log_Event \<times> state) \<Rightarrow> (nat \<Rightarrow> tm) \<Rightarrow> log_level \<Rightarrow>
     va_arg list \<Rightarrow> nat \<Rightarrow> log_Event \<times> state \<Rightarrow> log_Event \<times> state" where
  "log_log_loop_run user clk level args i es =
     (if i < MAX_CALLBACKS \<and> cb_fn (L_callbacks (L (snd es)) ! i) \<noteq> NULL_fn then
        (let cb = L_callbacks (L (snd es)) ! i
         in log_log_loop_run user clk level args (Suc i)
              (if level_int level \<ge> level_int (cb_level cb)
               then call_sink_run user clk args (Slot i) (cb_fn cb) (cb_udata cb) es
               else es))
      else es)"
  by pat_completeness auto
termination
  by (relation "measure (\<lambda>(user, clk, level, args, i, es). MAX_CALLBACKS - i)") auto

declare log_log_loop_run.simps [simp del]

definition log_log_run ::
  "(nat \<Rightarrow> log_Event \<times> state \<Rightarrow> log_Event \<times> state) \<Rightarrow>
   (nat \<Rightarrow> bool \<Rightarrow> voidptr \<Rightarrow> state \<Rightarrow> state) \<Rightarrow>
   (nat \<Rightarrow> tm) \<Rightarrow> log_level \<Rightarrow> string \<Rightarrow> int \<Rightarrow> string \<Rightarrow> va_arg list \<Rightarrow> state \<Rightarrow> state" where
  "log_log_run user hook clk level file line fmt args s =
     (let ev = \<lparr>ev_ap = [], ev_fmt = fmt, ev_file = file, ev_time = None,
                ev_udata = NULL, ev_line = line, ev_level = level\<rparr>;
          s1 = lock_run hook s;
          es2 = (if \<not> L_quiet (L s1) \<and> level_int level \<ge> level_int (L_level (L s1))
                 then call_sink_run user clk args Console stdout_callback STDERR (ev, s1)
                 else (ev, s1));
          es3 = log_log_loop_run user clk level args 0 es2
      in unlock_run hook (snd es3))"

section \<open>Notions used to state the properties\<close>

text \<open>
  The actions a call of \<^verbatim>\<open>log_log\<close> adds to the trace, and what can be read from a
  sequence of actions: the sinks called, in order; the values read from the clock; the
  time each called sink finds in the event it is handed.
\<close>

definition log_log_actions ::
  "(nat \<Rightarrow> tm) \<Rightarrow> log_level \<Rightarrow> string \<Rightarrow> int \<Rightarrow> string \<Rightarrow> va_arg list \<Rightarrow> state \<Rightarrow>
     action list" where
  "log_log_actions clk level file line fmt args s =
     drop (length (trace s)) (trace (log_log clk level file line fmt args s))"

primrec called_sinks :: "action list \<Rightarrow> sink list" where
  "called_sinks [] = []"
| "called_sinks (a # as) =
     (case a of Sink_call k f e \<Rightarrow> [k] | _ \<Rightarrow> []) @ called_sinks as"

primrec clock_readings :: "action list \<Rightarrow> tm list" where
  "clock_readings [] = []"
| "clock_readings (a # as) =
     (case a of Clock_read t \<Rightarrow> [t] | _ \<Rightarrow> []) @ clock_readings as"

primrec observed_times :: "action list \<Rightarrow> tm option list" where
  "observed_times [] = []"
| "observed_times (a # as) =
     (case a of Sink_call k f e \<Rightarrow> [ev_time e] | _ \<Rightarrow> []) @ observed_times as"

fun is_hook :: "action \<Rightarrow> bool" where
  "is_hook (Lock_hook f b u) = True"
| "is_hook a = False"

fun is_sink_call :: "action \<Rightarrow> bool" where
  "is_sink_call (Sink_call k f e) = True"
| "is_sink_call a = False"

fun is_slot_call :: "action \<Rightarrow> bool" where
  "is_slot_call (Sink_call (Slot i) f e) = True"
| "is_slot_call a = False"

text \<open>
  The slots the loop of \<^verbatim>\<open>log_log\<close> visits are those before the first slot whose
  \<^verbatim>\<open>fn\<close> is null; \<open>first_free\<close> is the index of that slot (\<open>MAX_CALLBACKS\<close> when there
  is none). A visited slot qualifies for a severity when its own level is at most the
  severity. The console sink fires when \<^verbatim>\<open>L.quiet\<close> is false and \<^verbatim>\<open>L.level\<close> is at most the
  severity.
\<close>

definition registered :: "registry \<Rightarrow> nat list" where
  "registered R = takeWhile (\<lambda>i. cb_fn (L_callbacks R ! i) \<noteq> NULL_fn) [0..<MAX_CALLBACKS]"

definition first_free :: "registry \<Rightarrow> nat" where
  "first_free R = length (registered R)"

definition qualifying :: "log_level \<Rightarrow> registry \<Rightarrow> nat list" where
  "qualifying level R =
     filter (\<lambda>i. level_int (cb_level (L_callbacks R ! i)) \<le> level_int level) (registered R)"

definition console_fires :: "log_level \<Rightarrow> registry \<Rightarrow> bool" where
  "console_fires level R \<longleftrightarrow> \<not> L_quiet R \<and> level_int (L_level R) \<le> level_int level"

definition sinks_of :: "log_level \<Rightarrow> registry \<Rightarrow> sink list" where
  "sinks_of level R =
     (if console_fires level R then [Console] else []) @ map Slot (qualifying level R)"

fun sink_fn :: "registry \<Rightarrow> sink \<Rightarrow> log_LogFn" where
  "sink_fn R Console = stdout_callback"
| "sink_fn R (Slot i) = cb_fn (L_callbacks R ! i)"

fun sink_udata :: "registry \<Rightarrow> sink \<Rightarrow> voidptr" where
  "sink_udata R Console = STDERR"
| "sink_udata R (Slot i) = cb_udata (L_callbacks R ! i)"

definition hook_calls :: "bool \<Rightarrow> registry \<Rightarrow> action list" where
  "hook_calls b R = (case L_lock R of None \<Rightarrow> [] | Some f \<Rightarrow> [Lock_hook f b (L_udata R)])"

text \<open>The event of a dispatch, stamped with time \<open>t\<close> and bound to the context \<open>ud\<close>.\<close>

definition handed ::
  "log_level \<Rightarrow> string \<Rightarrow> int \<Rightarrow> string \<Rightarrow> va_arg list \<Rightarrow> tm \<Rightarrow> voidptr \<Rightarrow> log_Event" where
  "handed level file line fmt args t ud =
     \<lparr>ev_ap = args, ev_fmt = fmt, ev_file = file, ev_time = Some t,
      ev_udata = ud, ev_line = line, ev_level = level\<rparr>"

definition sink_actions ::
  "(nat \<Rightarrow> tm) \<Rightarrow> log_level \<Rightarrow> string \<Rightarrow> int \<Rightarrow> string \<Rightarrow> va_arg list \<Rightarrow> state \<Rightarrow>
     action list" where
  "sink_actions clk level file line fmt args s =
     (if sinks_of level (L s) = [] then []
      else Clock_read (clk (clock_reads s)) #
        map (\<lambda>k. Sink_call k (sink_fn (L s) k)
               (handed level file line fmt args (clk (clock_reads s)) (sink_udata (L s) k)))
          (sinks_of level (L s)))"

text \<open>Auxiliary forms of the loop body of \<^verbatim>\<open>log_log\<close>, used in the proofs.\<close>

definition visit ::
  "(nat \<Rightarrow> tm) \<Rightarrow> log_level \<Rightarrow> va_arg list \<Rightarrow> registry \<Rightarrow> nat \<Rightarrow>
     log_Event \<times> state \<Rightarrow> log_Event \<times> state" where
  "visit clk level args R i es =
     (if level_int (cb_level (L_callbacks R ! i)) \<le> level_int level
      then call_sink clk args (Slot i) (sink_fn R (Slot i)) (sink_udata R (Slot i)) es
      else es)"

definition call ::
  "(nat \<Rightarrow> tm) \<Rightarrow> va_arg list \<Rightarrow> registry \<Rightarrow> sink \<Rightarrow> log_Event \<times> state \<Rightarrow>
     log_Event \<times> state" where
  "call clk args R k = call_sink clk args k (sink_fn R k) (sink_udata R k)"

text \<open>
  A caller that registers a list of sinks one after the other with
  \<^verbatim>\<open>log_add_callback\<close>, collecting the return values; and the content of \<^verbatim>\<open>L.callbacks\<close>
  that holds the first \<open>MAX_CALLBACKS\<close> of a list of registrations, in order, followed
  by zeroed slots.
\<close>

fun add_all ::
  "(log_LogFn \<times> voidptr \<times> log_level) list \<Rightarrow> state \<Rightarrow> int list \<times> state" where
  "add_all [] s = ([], s)"
| "add_all (r # rs) s =
     (let (res, s1) = log_add_callback (fst r) (fst (snd r)) (snd (snd r)) s;
          (out, s2) = add_all rs s1
      in (res # out, s2))"

definition mk_Callback :: "log_LogFn \<times> voidptr \<times> log_level \<Rightarrow> Callback" where
  "mk_Callback r = \<lparr>cb_fn = fst r, cb_udata = fst (snd r), cb_level = snd (snd r)\<rparr>"

definition filled :: "(log_LogFn \<times> voidptr \<times> log_level) list \<Rightarrow> Callback list" where
  "filled regs = map mk_Callback (take MAX_CALLBACKS regs) @
     replicate (MAX_CALLBACKS - length regs) Callback_zero"

text \<open>Concrete inputs on which the theorems below are instantiated.\<close>

definition tick_clock :: "nat \<Rightarrow> tm" where
  "tick_clock k = 100 + k"

definition floor_state :: state where
  "floor_state =
     snd (log_add_callback (user_fn 1) (Ptr 1) LOG_TRACE (log_set_level LOG_INFO state_init))"

definition warn_state :: state where
  "warn_state = snd (log_add_callback (user_fn 1) (Ptr 1) LOG_WARN state_init)"

definition two_regs :: "(log_LogFn \<times> voidptr \<times> log_level) list" where
  "two_regs = [(user_fn 1, Ptr 1, LOG_WARN), (file_callback, Ptr 2, LOG_TRACE)]"

definition many_regs :: "(log_LogFn \<times> voidptr \<times> log_level) list" where
  "many_regs = map (\<lambda>i. (user_fn i, Ptr i, LOG_INFO)) [0..<33]"

text \<open>
  Behaviours of the caller's code: a sink and a hook that do nothing; a sink that
  registers another sink (\<open>user_fn 50\<close> calls \<^verbatim>\<open>log_add_callback\<close>); a sink that reads the
  clock itself. In \<open>reentrant_state\<close> the sink \<open>user_fn 50\<close> is registered in slot 0.
\<close>

definition idle_sink :: "nat \<Rightarrow> log_Event \<times> state \<Rightarrow> log_Event \<times> state" where
  "idle_sink n es = es"

definition idle_hook :: "nat \<Rightarrow> bool \<Rightarrow> voidptr \<Rightarrow> state \<Rightarrow> state" where
  "idle_hook f b u s = s"

definition registering_sink :: "nat \<Rightarrow> log_Event \<times> state \<Rightarrow> log_Event \<times> state" where
  "registering_sink n es =
     (if n = 50
      then (fst es, snd (log_add_callback (user_fn 51) (Ptr 51) LOG_TRACE (snd es)))
      else es)"

definition clock_sink :: "nat \<Rightarrow> log_Event \<times> state \<Rightarrow> log_Event \<times> state" where
  "clock_sink n es = (fst es, (snd es)\<lparr>clock_reads := Suc (clock_reads (snd es))\<rparr>)"

definition reentrant_state :: state where
  "reentrant_state = snd (log_add_callback (user_fn 50) (Ptr 50) LOG_TRACE state_init)"

section \<open>How the loops compute\<close>

text \<open>
  The loop of \<^verbatim>\<open>log_log\<close> is a fold of the loop body over the visited slots, hence a
  sequence of sink calls over the qualifying ones; the first call stamps the event and
  the later ones find it stamped. The loop of \<^verbatim>\<open>log_add_callback\<close> writes to the first
  free slot.
\<close>

lemma call_sink_eq:
  "call_sink clk args k fn ud (ev, s) =
     (if ev_time ev = None then
        (ev\<lparr>ev_ap := args, ev_time := Some (clk (clock_reads s)), ev_udata := ud\<rparr>,
         s\<lparr>clock_reads := Suc (clock_reads s),
           trace := trace s @ [Clock_read (clk (clock_reads s)),
              Sink_call k fn (ev\<lparr>ev_ap := args, ev_time := Some (clk (clock_reads s)), ev_udata := ud\<rparr>)]\<rparr>)
      else (ev\<lparr>ev_ap := args, ev_udata := ud\<rparr>,
            s\<lparr>trace := trace s @ [Sink_call k fn (ev\<lparr>ev_ap := args, ev_udata := ud\<rparr>)]\<rparr>))"
  by (simp add: call_sink_def init_event_def emit_def Let_def)

lemma L_call_sink: "L (snd (call_sink clk args k fn ud es)) = L (snd es)"
  by (cases es) (simp add: call_sink_eq)

lemma L_visit: "L (snd (visit clk level args R i es)) = L (snd es)"
  by (simp add: visit_def L_call_sink)

lemma loop_fold:
  "log_log_loop clk level args i es =
     fold (visit clk level args (L (snd es)))
       (takeWhile (\<lambda>j. cb_fn (L_callbacks (L (snd es)) ! j) \<noteq> NULL_fn) [i..<MAX_CALLBACKS]) es"
proof (induction clk level args i es rule: log_log_loop.induct)
  case (1 clk level args i es)
  show ?case
  proof (cases "i < MAX_CALLBACKS \<and> cb_fn (L_callbacks (L (snd es)) ! i) \<noteq> NULL_fn")
    case True
    then have upt: "[i..<MAX_CALLBACKS] = i # [Suc i..<MAX_CALLBACKS]"
      by (simp add: upt_conv_Cons)
    have step: "log_log_loop clk level args i es =
        log_log_loop clk level args (Suc i) (visit clk level args (L (snd es)) i es)"
      using True by (subst log_log_loop.simps) (simp add: visit_def Let_def)
    have "log_log_loop clk level args (Suc i) (visit clk level args (L (snd es)) i es) =
        fold (visit clk level args (L (snd es)))
          (takeWhile (\<lambda>j. cb_fn (L_callbacks (L (snd es)) ! j) \<noteq> NULL_fn) [Suc i..<MAX_CALLBACKS])
          (visit clk level args (L (snd es)) i es)"
    proof -
      have v: "(if level_int (cb_level (L_callbacks (L (snd es)) ! i)) \<le> level_int level
          then call_sink clk args (Slot i) (cb_fn (L_callbacks (L (snd es)) ! i))
                 (cb_udata (L_callbacks (L (snd es)) ! i)) es
          else es) = visit clk level args (L (snd es)) i es"
        by (simp add: visit_def)
      show ?thesis
        using "1.IH"[OF True refl] unfolding v by (simp only: L_visit)
    qed
    with step upt True show ?thesis by simp
  next
    case False
    then have "takeWhile (\<lambda>j. cb_fn (L_callbacks (L (snd es)) ! j) \<noteq> NULL_fn) [i..<MAX_CALLBACKS] = []"
      by (cases "i < MAX_CALLBACKS") (simp_all add: upt_conv_Cons)
    with False show ?thesis by (subst log_log_loop.simps) auto
  qed
qed

lemma fold_filter:
  "fold (\<lambda>i es. if P i then g i es else es) xs es = fold g (filter P xs) es"
  by (induction xs arbitrary: es) simp_all

lemma fold_call_stamped:
  "ev_time ev = Some t \<Longrightarrow>
   snd (fold (call clk args R) ks (ev, s)) =
     s\<lparr>trace := trace s @
        map (\<lambda>k. Sink_call k (sink_fn R k) (ev\<lparr>ev_ap := args, ev_udata := sink_udata R k\<rparr>)) ks\<rparr>"
proof (induction ks arbitrary: ev s)
  case Nil
  show ?case by simp
next
  case (Cons k ks)
  let ?ev1 = "ev\<lparr>ev_ap := args, ev_udata := sink_udata R k\<rparr>"
  let ?s1 = "s\<lparr>trace := trace s @ [Sink_call k (sink_fn R k) ?ev1]\<rparr>"
  have one: "call clk args R k (ev, s) = (?ev1, ?s1)"
    using Cons.prems by (simp add: call_def call_sink_eq)
  have "ev_time ?ev1 = Some t"
    using Cons.prems by simp
  from Cons.IH[OF this, of ?s1] one show ?case
    by simp
qed

lemma fold_call_fresh:
  "ev_time ev = None \<Longrightarrow>
   snd (fold (call clk args R) ks (ev, s)) =
     (if ks = [] then s
      else s\<lparr>clock_reads := Suc (clock_reads s),
             trace := trace s @ Clock_read (clk (clock_reads s)) #
               map (\<lambda>k. Sink_call k (sink_fn R k)
                      (ev\<lparr>ev_ap := args, ev_time := Some (clk (clock_reads s)),
                          ev_udata := sink_udata R k\<rparr>)) ks\<rparr>)"
proof (cases ks)
  case Nil
  then show ?thesis by simp
next
  case (Cons k ks')
  assume fresh: "ev_time ev = None"
  let ?t = "clk (clock_reads s)"
  let ?ev1 = "ev\<lparr>ev_ap := args, ev_time := Some ?t, ev_udata := sink_udata R k\<rparr>"
  let ?s1 = "s\<lparr>clock_reads := Suc (clock_reads s),
      trace := trace s @ [Clock_read ?t, Sink_call k (sink_fn R k) ?ev1]\<rparr>"
  have one: "call clk args R k (ev, s) = (?ev1, ?s1)"
    using fresh by (simp add: call_def call_sink_eq)
  have "ev_time ?ev1 = Some ?t" by simp
  from fold_call_stamped[OF this, of clk args R ks' ?s1] one Cons show ?thesis
    by simp
qed

lemma loop_calls:
  "log_log_loop clk level args 0 es =
     fold (call clk args (L (snd es))) (map Slot (qualifying level (L (snd es)))) es"
proof -
  have "visit clk level args (L (snd es)) =
      (\<lambda>i es'. if level_int (cb_level (L_callbacks (L (snd es)) ! i)) \<le> level_int level
         then (call clk args (L (snd es)) \<circ> Slot) i es' else es')"
    by (rule ext)+ (simp add: visit_def call_def)
  then show ?thesis
    by (simp add: loop_fold fold_filter fold_map qualifying_def registered_def comp_def)
qed

lemma lock_eq: "lock s = s\<lparr>trace := trace s @ hook_calls True (L s)\<rparr>"
  by (simp add: lock_def hook_calls_def emit_def split: option.split)

lemma unlock_eq: "unlock s = s\<lparr>trace := trace s @ hook_calls False (L s)\<rparr>"
  by (simp add: unlock_def hook_calls_def emit_def split: option.split)

lemma log_log_eq:
  "log_log clk level file line fmt args s =
     s\<lparr>clock_reads := clock_reads s + (if sinks_of level (L s) = [] then 0 else 1),
       trace := trace s @ hook_calls True (L s) @
         sink_actions clk level file line fmt args s @ hook_calls False (L s)\<rparr>"
proof -
  let ?ev = "\<lparr>ev_ap = [], ev_fmt = fmt, ev_file = file, ev_time = None,
                ev_udata = NULL, ev_line = line, ev_level = level\<rparr>"
  let ?s1 = "s\<lparr>trace := trace s @ hook_calls True (L s)\<rparr>"
  let ?es2 = "fold (call clk args (L s)) (if console_fires level (L s) then [Console] else []) (?ev, ?s1)"
  have L2: "L (snd ?es2) = L s"
    by (simp add: call_def L_call_sink)
  have es2: "(if \<not> L_quiet (L ?s1) \<and> level_int level \<ge> level_int (L_level (L ?s1))
                 then call_sink clk args Console stdout_callback STDERR (?ev, ?s1)
                 else (?ev, ?s1)) = ?es2"
    by (simp add: console_fires_def call_def)
  have "log_log_loop clk level args 0 ?es2 =
      fold (call clk args (L s)) (sinks_of level (L s)) (?ev, ?s1)"
    unfolding loop_calls L2 by (simp add: sinks_of_def)
  then have "log_log clk level file line fmt args s =
      unlock (snd (fold (call clk args (L s)) (sinks_of level (L s)) (?ev, ?s1)))"
    unfolding log_log_def lock_eq Let_def es2 by simp
  also have "snd (fold (call clk args (L s)) (sinks_of level (L s)) (?ev, ?s1)) =
     (if sinks_of level (L s) = [] then ?s1
      else ?s1\<lparr>clock_reads := Suc (clock_reads ?s1),
             trace := trace ?s1 @ Clock_read (clk (clock_reads ?s1)) #
               map (\<lambda>k. Sink_call k (sink_fn (L s) k)
                      (?ev\<lparr>ev_ap := args, ev_time := Some (clk (clock_reads ?s1)),
                          ev_udata := sink_udata (L s) k\<rparr>)) (sinks_of level (L s))\<rparr>)"
    by (rule fold_call_fresh) simp
  finally show ?thesis
    by (simp add: unlock_eq sink_actions_def handed_def)
qed

lemma log_log_actions_eq:
  "log_log_actions clk level file line fmt args s =
     hook_calls True (L s) @ sink_actions clk level file line fmt args s @ hook_calls False (L s)"
  by (simp add: log_log_actions_def log_log_eq)

lemma log_add_callback_loop_eq:
  "log_add_callback_loop fn ud lv i s =
     (let n = i + length (takeWhile (\<lambda>j. cb_fn (L_callbacks (L s) ! j) \<noteq> NULL_fn) [i..<MAX_CALLBACKS])
      in if n < MAX_CALLBACKS
         then (0, s\<lparr>L := (L s)\<lparr>L_callbacks := (L_callbacks (L s))
                 [n := \<lparr>cb_fn = fn, cb_udata = ud, cb_level = lv\<rparr>]\<rparr>\<rparr>)
         else (- 1, s))"
proof (induction fn ud lv i s rule: log_add_callback_loop.induct)
  case (1 fn ud lv i s)
  show ?case
  proof (cases "i < MAX_CALLBACKS")
    case False
    then show ?thesis
      by (subst log_add_callback_loop.simps) simp
  next
    case inside: True
    then have upt: "[i..<MAX_CALLBACKS] = i # [Suc i..<MAX_CALLBACKS]"
      by (simp add: upt_conv_Cons)
    show ?thesis
    proof (cases "cb_fn (L_callbacks (L s) ! i) = NULL_fn")
      case True
      with inside upt show ?thesis
        by (subst log_add_callback_loop.simps) simp
    next
      case False
      have "log_add_callback_loop fn ud lv i s = log_add_callback_loop fn ud lv (Suc i) s"
        using inside False by (subst log_add_callback_loop.simps) simp
      with "1.IH"[OF inside False] inside False upt show ?thesis
        by simp
    qed
  qed
qed

lemma log_add_callback_eq:
  "log_add_callback fn ud lv s =
     (if first_free (L s) < MAX_CALLBACKS
      then (0, s\<lparr>L := (L s)\<lparr>L_callbacks := (L_callbacks (L s))
              [first_free (L s) := \<lparr>cb_fn = fn, cb_udata = ud, cb_level = lv\<rparr>]\<rparr>\<rparr>)
      else (- 1, s))"
  by (simp add: log_add_callback_def log_add_callback_loop_eq first_free_def registered_def)

lemma filled_nth_lt:
  "i < length regs \<Longrightarrow> i < MAX_CALLBACKS \<Longrightarrow> filled regs ! i = mk_Callback (regs ! i)"
  by (simp add: filled_def nth_append)

lemma filled_nth_ge:
  "length regs \<le> i \<Longrightarrow> i < MAX_CALLBACKS \<Longrightarrow> filled regs ! i = Callback_zero"
  by (simp add: filled_def nth_append)

lemma registered_filled:
  assumes nn: "\<forall>r\<in>set regs. fst r \<noteq> NULL_fn" and cbs: "L_callbacks R = filled regs"
  shows "registered R = [0..<min (length regs) MAX_CALLBACKS]"
proof -
  let ?n = "min (length regs) MAX_CALLBACKS"
  let ?P = "\<lambda>i. cb_fn (L_callbacks R ! i) \<noteq> NULL_fn"
  have "takeWhile ?P [0..<MAX_CALLBACKS] = take ?n [0..<MAX_CALLBACKS]"
  proof (rule takeWhile_eq_take_P_nth)
    fix i assume "i < ?n" "i < length [0..<MAX_CALLBACKS]"
    then have "i < length regs" "i < MAX_CALLBACKS" by simp_all
    then show "?P ([0..<MAX_CALLBACKS] ! i)"
      using nn by (simp add: cbs filled_nth_lt mk_Callback_def)
  next
    assume "?n < length [0..<MAX_CALLBACKS]"
    then have "length regs < MAX_CALLBACKS" by simp
    then show "\<not> ?P ([0..<MAX_CALLBACKS] ! ?n)"
      by (simp add: cbs filled_nth_ge Callback_zero_def min_def)
  qed
  then show ?thesis
    by (simp add: registered_def min_def)
qed

lemma filled_snoc:
  assumes "length regs < MAX_CALLBACKS"
  shows "(filled regs)[length regs := mk_Callback r] = filled (regs @ [r])"
proof -
  from assms obtain k where k: "MAX_CALLBACKS - length regs = Suc k"
    by (cases "MAX_CALLBACKS - length regs") simp_all
  then have "MAX_CALLBACKS - Suc (length regs) = k" by simp
  with assms k show ?thesis
    by (simp add: filled_def list_update_append)
qed

lemma filled_full:
  "MAX_CALLBACKS \<le> length regs \<Longrightarrow> filled (regs @ rs) = filled regs"
  by (simp add: filled_def)

lemma log_add_callback_filled:
  assumes nn: "\<forall>r\<in>set regs. fst r \<noteq> NULL_fn" and cbs: "L_callbacks (L s) = filled regs"
  shows "log_add_callback (fst r) (fst (snd r)) (snd (snd r)) s =
     (if length regs < MAX_CALLBACKS then 0 else - 1,
      s\<lparr>L := (L s)\<lparr>L_callbacks := filled (regs @ [r])\<rparr>\<rparr>)"
proof (cases "length regs < MAX_CALLBACKS")
  case True
  then have "first_free (L s) = length regs"
    using registered_filled[OF nn cbs] by (simp add: first_free_def)
  with True show ?thesis
    using filled_snoc[OF True, of r]
    by (simp add: log_add_callback_eq cbs mk_Callback_def)
next
  case False
  then have "first_free (L s) = MAX_CALLBACKS"
    using registered_filled[OF nn cbs] by (simp add: first_free_def)
  moreover have "s\<lparr>L := (L s)\<lparr>L_callbacks := filled regs\<rparr>\<rparr> = s"
    using cbs[symmetric] by simp
  ultimately show ?thesis
    using False by (simp add: log_add_callback_eq filled_full)
qed

lemma add_all_filled:
  assumes "\<forall>r\<in>set done. fst r \<noteq> NULL_fn" and "\<forall>r\<in>set regs. fst r \<noteq> NULL_fn"
    and "L_callbacks (L s) = filled done"
  shows "add_all regs s =
     (map (\<lambda>k. if k < MAX_CALLBACKS then 0 else - 1) [length done..<length done + length regs],
      s\<lparr>L := (L s)\<lparr>L_callbacks := filled (done @ regs)\<rparr>\<rparr>)"
  using assms
proof (induction regs arbitrary: "done" s)
  case Nil
  then show ?case by simp
next
  case (Cons r regs)
  let ?s1 = "s\<lparr>L := (L s)\<lparr>L_callbacks := filled (done @ [r])\<rparr>\<rparr>"
  have one: "log_add_callback (fst r) (fst (snd r)) (snd (snd r)) s =
      (if length done < MAX_CALLBACKS then 0 else - 1, ?s1)"
    using Cons.prems by (intro log_add_callback_filled) simp_all
  have "add_all regs ?s1 =
     (map (\<lambda>k. if k < MAX_CALLBACKS then 0 else - 1)
        [length (done @ [r])..<length (done @ [r]) + length regs],
      ?s1\<lparr>L := (L ?s1)\<lparr>L_callbacks := filled ((done @ [r]) @ regs)\<rparr>\<rparr>)"
    using Cons.prems by (intro Cons.IH) simp_all
  with one show ?case
    by (simp del: upt_Suc add: upt_conv_Cons)
qed

lemma filled_Nil: "L_callbacks (L state_init) = filled []"
  by (simp add: state_init_def L_init_def filled_def)

lemma add_all_init:
  assumes "\<forall>r\<in>set regs. fst r \<noteq> NULL_fn"
  shows "add_all regs state_init =
     (map (\<lambda>k. if k < MAX_CALLBACKS then 0 else - 1) [0..<length regs],
      state_init\<lparr>L := L_init\<lparr>L_callbacks := filled regs\<rparr>\<rparr>)"
  using add_all_filled[of "[]" regs state_init] assms filled_Nil
  by (simp add: state_init_def)

lemma log_add_callback_full:
  assumes "\<forall>r\<in>set regs. fst r \<noteq> NULL_fn" and "L_callbacks (L s) = filled regs"
    and "MAX_CALLBACKS \<le> length regs"
  shows "log_add_callback fn ud lv s = (- 1, s)"
proof -
  have "first_free (L s) = MAX_CALLBACKS"
    using registered_filled[OF assms(1,2)] assms(3) by (simp add: first_free_def)
  then show ?thesis
    by (simp add: log_add_callback_eq)
qed

lemma enumerate_nth: "enumerate 0 xs = map (\<lambda>i. (i, xs ! i)) [0..<length xs]"
  by (rule nth_equalityI) (simp_all add: nth_enumerate_eq)

lemma in_registered_iff:
  "i \<in> set (registered R) \<longleftrightarrow>
     i < MAX_CALLBACKS \<and> (\<forall>j\<le>i. cb_fn (L_callbacks R ! j) \<noteq> NULL_fn)"
proof -
  let ?P = "\<lambda>i. cb_fn (L_callbacks R ! i) \<noteq> NULL_fn"
  let ?k = "length (takeWhile ?P [0..<MAX_CALLBACKS])"
  have kle: "?k \<le> MAX_CALLBACKS"
    using length_takeWhile_le[of ?P "[0..<MAX_CALLBACKS]"] by simp
  have tw: "takeWhile ?P [0..<MAX_CALLBACKS] = [0..<?k]"
    using takeWhile_eq_take[of ?P "[0..<MAX_CALLBACKS]"] kle by (simp add: min_def)
  have below: "?P j" if "j < ?k" for j
  proof -
    from that have "j \<in> set (takeWhile ?P [0..<MAX_CALLBACKS])"
      by (subst tw) simp
    then show ?thesis by (rule set_takeWhileD[THEN conjunct2])
  qed
  have stop: "\<not> ?P ?k" if "?k < MAX_CALLBACKS"
    using nth_length_takeWhile[of ?P "[0..<MAX_CALLBACKS]"] that by simp
  show ?thesis
  proof
    assume "i \<in> set (registered R)"
    then have "i < ?k" unfolding registered_def by (subst (asm) tw) simp
    with kle below show "i < MAX_CALLBACKS \<and> (\<forall>j\<le>i. ?P j)" by auto
  next
    assume a: "i < MAX_CALLBACKS \<and> (\<forall>j\<le>i. ?P j)"
    have "i < ?k"
    proof (rule ccontr)
      assume "\<not> i < ?k"
      then have "?k \<le> i" by simp
      with a stop show False by auto
    qed
    then show "i \<in> set (registered R)" unfolding registered_def by (subst tw) simp
  qed
qed

lemma qualifying_cong:
  "L_callbacks R' = L_callbacks R \<Longrightarrow> qualifying level R' = qualifying level R"
  by (simp add: qualifying_def registered_def)

section \<open>Reading a trace\<close>

lemma called_sinks_append: "called_sinks (xs @ ys) = called_sinks xs @ called_sinks ys"
  by (induction xs) simp_all

lemma clock_readings_append: "clock_readings (xs @ ys) = clock_readings xs @ clock_readings ys"
  by (induction xs) simp_all


lemma called_sinks_calls: "called_sinks (map (\<lambda>k. Sink_call k (f k) (e k)) ks) = ks"
  by (induction ks) simp_all

lemma called_sinks_slot_calls:
  "called_sinks (map (\<lambda>i. Sink_call (Slot i) (f i) (e i)) q) = map Slot q"
  by (induction q) simp_all

lemma clock_readings_calls: "clock_readings (map (\<lambda>k. Sink_call k (f k) (e k)) ks) = []"
  by (induction ks) simp_all




lemma filter_sink_calls:
  "filter is_sink_call (map (\<lambda>k. Sink_call k (f k) (e k)) ks) = map (\<lambda>k. Sink_call k (f k) (e k)) ks"
  by (induction ks) simp_all

lemma filter_slot_calls:
  "filter is_slot_call (map (\<lambda>k. Sink_call k (f k) (e k)) (map Slot q)) =
     map (\<lambda>i. Sink_call (Slot i) (f (Slot i)) (e (Slot i))) q"
  by (induction q) simp_all

lemma hook_calls_proj [simp]:
  "called_sinks (hook_calls b R) = []"
  "clock_readings (hook_calls b R) = []"
  "observed_times (hook_calls b R) = []"
  "filter is_hook (hook_calls b R) = hook_calls b R"
  "filter is_sink_call (hook_calls b R) = []"
  "filter is_slot_call (hook_calls b R) = []"
  "filter (\<lambda>a. \<not> is_hook a) (hook_calls b R) = []"
  by (simp_all add: hook_calls_def split: option.split)

lemma called_sinks_sink_actions:
  "called_sinks (sink_actions clk level file line fmt args s) = sinks_of level (L s)"
  by (simp add: sink_actions_def called_sinks_calls)

lemma clock_readings_sink_actions:
  "clock_readings (sink_actions clk level file line fmt args s) =
     (if sinks_of level (L s) = [] then [] else [clk (clock_reads s)])"
  by (simp add: sink_actions_def clock_readings_calls)




lemma filter_sink_call_sink_actions:
  "filter is_sink_call (sink_actions clk level file line fmt args s) =
     map (\<lambda>k. Sink_call k (sink_fn (L s) k)
            (handed level file line fmt args (clk (clock_reads s)) (sink_udata (L s) k)))
       (sinks_of level (L s))"
  by (simp add: sink_actions_def filter_sink_calls)

lemma filter_slot_sink_actions:
  "filter is_slot_call (sink_actions clk level file line fmt args s) =
     map (\<lambda>i. Sink_call (Slot i) (cb_fn (L_callbacks (L s) ! i))
            (handed level file line fmt args (clk (clock_reads s))
               (cb_udata (L_callbacks (L s) ! i))))
       (qualifying level (L s))"
  by (simp add: sink_actions_def sinks_of_def filter_slot_calls)

lemma called_sinks_log_log:
  "called_sinks (log_log_actions clk level file line fmt args s) = sinks_of level (L s)"
  by (simp add: log_log_actions_eq called_sinks_append called_sinks_sink_actions)

lemma clock_readings_log_log:
  "clock_readings (log_log_actions clk level file line fmt args s) =
     (if sinks_of level (L s) = [] then [] else [clk (clock_reads s)])"
  by (simp add: log_log_actions_eq clock_readings_append clock_readings_sink_actions)

lemma filter_slot_log_log:
  "filter is_slot_call (log_log_actions clk level file line fmt args s) =
     map (\<lambda>i. Sink_call (Slot i) (cb_fn (L_callbacks (L s) ! i))
            (handed level file line fmt args (clk (clock_reads s))
               (cb_udata (L_callbacks (L s) ! i))))
       (qualifying level (L s))"
  by (simp add: log_log_actions_eq filter_slot_sink_actions)

section \<open>Running the external code\<close>

text \<open>
  With a sink and a hook that do nothing, the functions that run the external code are
  those that only record it. When the caller's code does not write to \<^verbatim>\<open>L\<close>, neither
  does a sink call of \<^verbatim>\<open>log_log\<close> nor its loop.
\<close>

lemma log_log_loop_run_idle:
  "log_log_loop_run idle_sink clk level args i es = log_log_loop clk level args i es"
proof (induction clk level args i es rule: log_log_loop.induct)
  case (1 clk level args i es)
  have cs: "call_sink_run idle_sink clk args k fn ud es' = call_sink clk args k fn ud es'"
    for k fn ud es'
    by (cases fn) (simp_all add: call_sink_run_def call_sink_def run_sink_def idle_sink_def
        split: prod.split)
  show ?case
  proof (cases "i < MAX_CALLBACKS \<and> cb_fn (L_callbacks (L (snd es)) ! i) \<noteq> NULL_fn")
    case True
    let ?es1 = "if level_int (cb_level (L_callbacks (L (snd es)) ! i)) \<le> level_int level
        then call_sink clk args (Slot i) (cb_fn (L_callbacks (L (snd es)) ! i))
               (cb_udata (L_callbacks (L (snd es)) ! i)) es
        else es"
    have a: "log_log_loop_run idle_sink clk level args i es =
        log_log_loop_run idle_sink clk level args (Suc i) ?es1"
      using True by (subst log_log_loop_run.simps) (simp add: Let_def cs)
    have b: "log_log_loop clk level args i es = log_log_loop clk level args (Suc i) ?es1"
      using True by (subst log_log_loop.simps) (simp add: Let_def)
    have c: "log_log_loop_run idle_sink clk level args (Suc i) ?es1 =
        log_log_loop clk level args (Suc i) ?es1"
      using "1.IH"[OF True refl] .
    show ?thesis
      unfolding a b by (rule c)
  next
    case False
    then show ?thesis
      by (subst log_log_loop_run.simps, subst log_log_loop.simps) auto
  qed
qed

lemma log_log_run_idle:
  "log_log_run idle_sink idle_hook clk level file line fmt args s =
     log_log clk level file line fmt args s"
proof -
  have cs: "call_sink_run idle_sink clk args k fn ud es' = call_sink clk args k fn ud es'"
    for k fn ud es'
    by (cases fn) (simp_all add: call_sink_run_def call_sink_def run_sink_def idle_sink_def
        split: prod.split)
  have lk: "lock_run idle_hook t = lock t" for t
    by (simp add: lock_run_def lock_def idle_hook_def split: option.split)
  have ul: "unlock_run idle_hook t = unlock t" for t
    by (simp add: unlock_run_def unlock_def idle_hook_def split: option.split)
  show ?thesis
    by (simp add: log_log_run_def log_log_def lk ul cs log_log_loop_run_idle Let_def)
qed

lemma L_init_event: "L (snd (init_event clk ud es)) = L (snd es)"
  by (cases es) (simp add: init_event_def emit_def Let_def)

lemma L_call_sink_run:
  assumes "\<forall>n es. L (snd (user n es)) = L (snd es)"
  shows "L (snd (call_sink_run user clk args k fn ud es)) = L (snd es)"
proof -
  obtain ev s where i: "init_event clk ud es = (ev, s)"
    by (cases "init_event clk ud es")
  then have "L s = L (snd es)"
    using L_init_event[of clk ud es] by simp
  with i assms show ?thesis
    by (cases fn) (simp_all add: call_sink_run_def run_sink_def emit_def Let_def)
qed

lemma L_log_log_loop_run:
  assumes "\<forall>n es. L (snd (user n es)) = L (snd es)"
  shows "L (snd (log_log_loop_run user clk level args i es)) = L (snd es)"
  using assms
proof (induction user clk level args i es rule: log_log_loop_run.induct)
  case (1 user clk level args i es)
  show ?case
  proof (cases "i < MAX_CALLBACKS \<and> cb_fn (L_callbacks (L (snd es)) ! i) \<noteq> NULL_fn")
    case True
    let ?es1 = "if level_int (cb_level (L_callbacks (L (snd es)) ! i)) \<le> level_int level
        then call_sink_run user clk args (Slot i) (cb_fn (L_callbacks (L (snd es)) ! i))
               (cb_udata (L_callbacks (L (snd es)) ! i)) es
        else es"
    have step: "log_log_loop_run user clk level args i es =
        log_log_loop_run user clk level args (Suc i) ?es1"
      using True by (subst log_log_loop_run.simps) (simp add: Let_def)
    have "L (snd ?es1) = L (snd es)"
      by (simp add: L_call_sink_run[OF "1.prems"])
    moreover have "L (snd (log_log_loop_run user clk level args (Suc i) ?es1)) = L (snd ?es1)"
      using "1.IH"[OF True refl "1.prems"] .
    ultimately show ?thesis
      using step by simp
  next
    case False
    then show ?thesis
      by (subst log_log_loop_run.simps) auto
  qed
qed

section \<open>Severity names\<close>

text \<open>
  C9. \<open>log_level_string\<close> takes a level and nothing else (no state goes in or out), it
  yields the six names of \<^verbatim>\<open>level_strings\<close> for the six levels, and the six names are
  pairwise distinct.
\<close>

theorem log_level_string_distinct:
  "map log_level_string [LOG_TRACE, LOG_DEBUG, LOG_INFO, LOG_WARN, LOG_ERROR, LOG_FATAL]
     = [''TRACE'', ''DEBUG'', ''INFO'', ''WARN'', ''ERROR'', ''FATAL'']
   \<and> distinct (map log_level_string
        [LOG_TRACE, LOG_DEBUG, LOG_INFO, LOG_WARN, LOG_ERROR, LOG_FATAL])"
proof -
  have vals: "map log_level_string [LOG_TRACE, LOG_DEBUG, LOG_INFO, LOG_WARN, LOG_ERROR, LOG_FATAL]
     = [''TRACE'', ''DEBUG'', ''INFO'', ''WARN'', ''ERROR'', ''FATAL'']"
    by (simp add: log_level_string_def level_strings_def)
  then show ?thesis
    by simp
qed

section \<open>The global level\<close>

text \<open>
  C1, as amended. In a dispatch whose severity is strictly below \<^verbatim>\<open>L.level\<close> the console
  sink is not called, whatever \<^verbatim>\<open>L.quiet\<close> is. The registered sinks are not filtered by
  \<^verbatim>\<open>L.level\<close>: the sinks called are exactly the visited slots whose own level is at most
  the severity, in slot order, and the clock is read (once) exactly when there is such
  a slot; when there is none, no sink is called and the clock is not read.
\<close>

theorem log_log_below_global_level:
  assumes "level_int level < level_int (L_level (L s))"
  shows "Console \<notin> set (called_sinks (log_log_actions clk level file line fmt args s))
     \<and> called_sinks (log_log_actions clk level file line fmt args s)
         = map Slot (qualifying level (L s))
     \<and> clock_readings (log_log_actions clk level file line fmt args s)
         = (if qualifying level (L s) = [] then [] else [clk (clock_reads s)])"
proof -
  from assms have "sinks_of level (L s) = map Slot (qualifying level (L s))"
    by (simp add: sinks_of_def console_fires_def)
  then show ?thesis
    by (auto simp: called_sinks_log_log clock_readings_log_log)
qed

text \<open>
  An instance: the global level is \<^verbatim>\<open>LOG_INFO\<close>, one sink is registered with level
  \<^verbatim>\<open>LOG_TRACE\<close>, and the dispatch is at \<^verbatim>\<open>LOG_DEBUG\<close>.
\<close>

theorem log_log_below_global_level_witness:
  "level_int LOG_DEBUG < level_int (L_level (L floor_state))
   \<and> Console \<notin> set (called_sinks
        (log_log_actions tick_clock LOG_DEBUG ''main.c'' 10 ''x'' [Int_arg 3] floor_state))
   \<and> called_sinks (log_log_actions tick_clock LOG_DEBUG ''main.c'' 10 ''x'' [Int_arg 3]
        floor_state) = map Slot (qualifying LOG_DEBUG (L floor_state))"
proof -
  have h: "level_int LOG_DEBUG < level_int (L_level (L floor_state))"
    by code_simp
  from log_log_below_global_level[OF h, of tick_clock "''main.c''" 10 "''x''" "[Int_arg 3]"] h
  show ?thesis by blast
qed

text \<open>
  On the same input the claim as first stated fails: the severity is below the global
  level, yet the registered sink is called and the clock is read.
\<close>

theorem log_log_below_global_level_counterexample:
  "level_int LOG_DEBUG < level_int (L_level (L floor_state))
   \<and> called_sinks (log_log_actions tick_clock LOG_DEBUG ''main.c'' 10 ''x'' [Int_arg 3]
        floor_state) = [Slot 0]
   \<and> clock_readings (log_log_actions tick_clock LOG_DEBUG ''main.c'' 10 ''x'' [Int_arg 3]
        floor_state) = [100]"
  by code_simp

section \<open>The quiet flag\<close>

text \<open>
  C2. After \<^verbatim>\<open>log_set_quiet(true)\<close> a dispatch does not call the console sink, and its calls
  of registered sinks (which slot, which function, which event, in which order) are
  those of the same dispatch after \<^verbatim>\<open>log_set_quiet(false)\<close>: one call for each visited slot
  whose level is at most the severity.
\<close>

theorem log_log_quiet:
  "Console \<notin> set (called_sinks
       (log_log_actions clk level file line fmt args (log_set_quiet True s)))
   \<and> filter is_slot_call (log_log_actions clk level file line fmt args (log_set_quiet True s))
       = filter is_slot_call
           (log_log_actions clk level file line fmt args (log_set_quiet False s))
   \<and> called_sinks (filter is_slot_call
         (log_log_actions clk level file line fmt args (log_set_quiet True s)))
       = map Slot (qualifying level (L s))"
proof -
  have q: "qualifying level (L (log_set_quiet b s)) = qualifying level (L s)" for b
    by (rule qualifying_cong) (simp add: log_set_quiet_def)
  have a: "Console \<notin> set (called_sinks
       (log_log_actions clk level file line fmt args (log_set_quiet True s)))"
    by (auto simp: called_sinks_log_log sinks_of_def console_fires_def log_set_quiet_def)
  have b: "filter is_slot_call (log_log_actions clk level file line fmt args (log_set_quiet b s))
      = map (\<lambda>i. Sink_call (Slot i) (cb_fn (L_callbacks (L s) ! i))
            (handed level file line fmt args (clk (clock_reads s))
               (cb_udata (L_callbacks (L s) ! i))))
          (qualifying level (L s))" for b
    unfolding filter_slot_log_log q by (simp add: log_set_quiet_def)
  have c: "called_sinks (map (\<lambda>i. Sink_call (Slot i) (cb_fn (L_callbacks (L s) ! i))
            (handed level file line fmt args (clk (clock_reads s))
               (cb_udata (L_callbacks (L s) ! i))))
          (qualifying level (L s))) = map Slot (qualifying level (L s))"
    by (rule called_sinks_slot_calls)
  from a b c show ?thesis by simp
qed

section \<open>The timestamp\<close>


section \<open>Capacity of the registry\<close>

text \<open>
  C4. Registering a list of sinks (non-null functions) from the initial state: the
  \<open>k\<close>-th call returns 0 while \<open>k < MAX_CALLBACKS = 32\<close> and -1 from then on; the
  slots hold the first 32 registrations in order, followed by zeroed slots, and nothing
  else of the state changes; and once 32 or more have been registered, any further call
  of \<^verbatim>\<open>log_add_callback\<close> returns -1 and leaves the state as it is.
\<close>

theorem log_add_callback_capacity:
  assumes "\<forall>r\<in>set regs. fst r \<noteq> NULL_fn"
  shows "fst (add_all regs state_init)
       = map (\<lambda>k. if k < MAX_CALLBACKS then 0 else - 1) [0..<length regs]
     \<and> snd (add_all regs state_init)
       = state_init\<lparr>L := L_init\<lparr>L_callbacks :=
           map mk_Callback (take MAX_CALLBACKS regs) @
           replicate (MAX_CALLBACKS - length regs) Callback_zero\<rparr>\<rparr>
     \<and> (MAX_CALLBACKS \<le> length regs \<longrightarrow>
          log_add_callback fn ud lv (snd (add_all regs state_init))
            = (- 1, snd (add_all regs state_init)))"
proof -
  note eq = add_all_init[OF assms]
  have "L_callbacks (L (snd (add_all regs state_init))) = filled regs"
    by (simp add: eq)
  from log_add_callback_full[OF assms this] eq show ?thesis
    by (simp add: filled_def)
qed

text \<open>An instance: 33 registrations, then one more.\<close>

theorem log_add_callback_capacity_witness:
  "fst (add_all many_regs state_init) = replicate 32 0 @ [- 1]
   \<and> log_add_callback (user_fn 99) (Ptr 99) LOG_FATAL (snd (add_all many_regs state_init))
       = (- 1, snd (add_all many_regs state_init))"
proof -
  have h1: "\<forall>r\<in>set many_regs. fst r \<noteq> NULL_fn"
    by (simp add: many_regs_def)
  have h2: "MAX_CALLBACKS \<le> length many_regs"
    by (simp add: many_regs_def MAX_CALLBACKS_def)
  have e: "map (\<lambda>k. if k < MAX_CALLBACKS then 0 else - 1) [0..<length many_regs]
      = replicate 32 (0::int) @ [- 1]"
    by code_simp
  note c = log_add_callback_capacity[OF h1, of "user_fn 99" "Ptr 99" LOG_FATAL]
  have r: "fst (add_all many_regs state_init) = replicate 32 0 @ [- 1]"
    using conjunct1[OF c] unfolding e .
  have f: "log_add_callback (user_fn 99) (Ptr 99) LOG_FATAL (snd (add_all many_regs state_init))
       = (- 1, snd (add_all many_regs state_init))"
    using c h2 by blast
  from r f show ?thesis by blast
qed

section \<open>The threshold of a sink\<close>

text \<open>
  C5. Let slot \<open>i\<close> hold a registered sink (the slots up to \<open>i\<close> have a non-null
  function) of level \<open>L2\<close>. A dispatch at a severity \<open>L1\<close> below \<open>L2\<close> does not call
  it; a dispatch at a severity \<open>L3\<close> that is \<open>L2\<close> or above does.
\<close>

theorem log_log_threshold:
  assumes "i < MAX_CALLBACKS"
    and "\<forall>j\<le>i. cb_fn (L_callbacks (L s) ! j) \<noteq> NULL_fn"
    and "cb_level (L_callbacks (L s) ! i) = L2"
    and "level_int L1 < level_int L2"
    and "level_int L2 \<le> level_int L3"
  shows "Slot i \<notin> set (called_sinks (log_log_actions clk L1 file line fmt args s))
     \<and> Slot i \<in> set (called_sinks (log_log_actions clk L3 file' line' fmt' args' s))"
proof -
  from assms(1,2) have "i \<in> set (registered (L s))"
    by (simp add: in_registered_iff)
  with assms(3-5) show ?thesis
    by (auto simp: called_sinks_log_log sinks_of_def qualifying_def)
qed

text \<open>
  An instance: a sink of level \<^verbatim>\<open>LOG_WARN\<close> in slot 0, dispatches at \<^verbatim>\<open>LOG_INFO\<close> and at
  \<^verbatim>\<open>LOG_ERROR\<close>.
\<close>

theorem log_log_threshold_witness:
  "Slot 0 \<notin> set (called_sinks
       (log_log_actions tick_clock LOG_INFO ''main.c'' 10 ''x'' [] warn_state))
   \<and> Slot 0 \<in> set (called_sinks
       (log_log_actions tick_clock LOG_ERROR ''main.c'' 11 ''y'' [] warn_state))"
proof -
  have c0: "cb_fn (L_callbacks (L warn_state) ! 0) = user_fn 1"
    by code_simp
  have h1: "0 < MAX_CALLBACKS"
    by (simp add: MAX_CALLBACKS_def)
  have h2: "\<forall>j\<le>0. cb_fn (L_callbacks (L warn_state) ! j) \<noteq> NULL_fn"
    by (simp add: c0)
  have h3: "cb_level (L_callbacks (L warn_state) ! 0) = LOG_WARN"
    by code_simp
  have h4: "level_int LOG_INFO < level_int LOG_WARN" by simp
  have h5: "level_int LOG_WARN \<le> level_int LOG_ERROR" by simp
  show ?thesis
    by (rule log_log_threshold[OF h1 h2 h3 h4 h5])
qed

section \<open>Order of invocation\<close>

text \<open>
  C6. Let the slots of the registry be those left by registering the list \<open>regs\<close>
  (non-null functions) from the initial state. The sink calls of a dispatch are then: the
  console sink first, when it fires; then one call for each of the first 32 registrations
  whose level is at most the severity, in the order of registration, each with the
  function and the context it was registered with and with the same stamped event.
  Registrations stay where they are: a dispatch and the three setters leave
  \<^verbatim>\<open>L.callbacks\<close> as it is, and \<^verbatim>\<open>log_add_callback\<close> leaves every slot before the first
  free one as it is.
\<close>

theorem log_log_registration_order:
  assumes "\<forall>r\<in>set regs. fst r \<noteq> NULL_fn"
    and "L_callbacks (L s) = L_callbacks (L (snd (add_all regs state_init)))"
  shows "filter is_sink_call (log_log_actions clk level file line fmt args s) =
     (if \<not> L_quiet (L s) \<and> level_int (L_level (L s)) \<le> level_int level
      then [Sink_call Console stdout_callback
              (handed level file line fmt args (clk (clock_reads s)) STDERR)]
      else []) @
     map (\<lambda>(i, r). Sink_call (Slot i) (fst r)
            (handed level file line fmt args (clk (clock_reads s)) (fst (snd r))))
       (filter (\<lambda>(i, r). level_int (snd (snd r)) \<le> level_int level)
          (enumerate 0 (take MAX_CALLBACKS regs)))
   \<and> L_callbacks (L (log_log clk level file line fmt args s)) = L_callbacks (L s)
   \<and> L_callbacks (L (log_set_level level' s)) = L_callbacks (L s)
   \<and> L_callbacks (L (log_set_quiet enable s)) = L_callbacks (L s)
   \<and> L_callbacks (L (log_set_lock lockfn ud s)) = L_callbacks (L s)
   \<and> take (first_free (L s)) (L_callbacks (L (snd (log_add_callback fn ud' lv s))))
       = take (first_free (L s)) (L_callbacks (L s))"
proof -
  let ?xs = "take MAX_CALLBACKS regs"
  let ?m = "min (length regs) MAX_CALLBACKS"
  let ?h = "\<lambda>ud. handed level file line fmt args (clk (clock_reads s)) ud"
  have cbs: "L_callbacks (L s) = filled regs"
    using assms(2) by (simp add: add_all_init[OF assms(1)])
  have reg: "registered (L s) = [0..<?m]"
    by (rule registered_filled[OF assms(1) cbs])
  have nth: "L_callbacks (L s) ! i = mk_Callback (?xs ! i)" if "i < ?m" for i
    using that by (simp add: cbs filled_nth_lt)
  have q: "qualifying level (L s) =
      filter (\<lambda>i. level_int (snd (snd (?xs ! i))) \<le> level_int level) [0..<?m]"
    unfolding qualifying_def reg
    by (rule filter_cong) (simp_all add: nth mk_Callback_def)
  have slots: "map (\<lambda>k. Sink_call k (sink_fn (L s) k) (?h (sink_udata (L s) k)))
        (map Slot (qualifying level (L s))) =
      map (\<lambda>(i, r). Sink_call (Slot i) (fst r) (?h (fst (snd r))))
        (filter (\<lambda>(i, r). level_int (snd (snd r)) \<le> level_int level) (enumerate 0 ?xs))"
  proof -
    have "map (\<lambda>k. Sink_call k (sink_fn (L s) k) (?h (sink_udata (L s) k)))
        (map Slot (qualifying level (L s))) =
      map (\<lambda>i. Sink_call (Slot i) (fst (?xs ! i)) (?h (fst (snd (?xs ! i)))))
        (qualifying level (L s))"
      unfolding q by (simp add: nth mk_Callback_def comp_def)
    also have "\<dots> = map (\<lambda>(i, r). Sink_call (Slot i) (fst r) (?h (fst (snd r))))
        (filter (\<lambda>(i, r). level_int (snd (snd r)) \<le> level_int level) (enumerate 0 ?xs))"
      unfolding q by (simp add: enumerate_nth filter_map comp_def min.commute)
    finally show ?thesis .
  qed
  have "filter is_sink_call (log_log_actions clk level file line fmt args s) =
      map (\<lambda>k. Sink_call k (sink_fn (L s) k) (?h (sink_udata (L s) k))) (sinks_of level (L s))"
    by (simp add: log_log_actions_eq filter_sink_call_sink_actions)
  also have "\<dots> = (if console_fires level (L s)
        then [Sink_call Console stdout_callback (?h STDERR)] else []) @
      map (\<lambda>k. Sink_call k (sink_fn (L s) k) (?h (sink_udata (L s) k)))
        (map Slot (qualifying level (L s)))"
    by (simp add: sinks_of_def)
  finally have calls: "filter is_sink_call (log_log_actions clk level file line fmt args s) =
     (if \<not> L_quiet (L s) \<and> level_int (L_level (L s)) \<le> level_int level
      then [Sink_call Console stdout_callback (?h STDERR)] else []) @
     map (\<lambda>(i, r). Sink_call (Slot i) (fst r) (?h (fst (snd r))))
       (filter (\<lambda>(i, r). level_int (snd (snd r)) \<le> level_int level) (enumerate 0 ?xs))"
    unfolding slots by (simp add: console_fires_def)
  have kept: "L_callbacks (L (log_log clk level file line fmt args s)) = L_callbacks (L s)"
    by (simp add: log_log_eq)
  have setters: "L_callbacks (L (log_set_level level' s)) = L_callbacks (L s)"
    "L_callbacks (L (log_set_quiet enable s)) = L_callbacks (L s)"
    "L_callbacks (L (log_set_lock lockfn ud s)) = L_callbacks (L s)"
    by (simp_all add: log_set_level_def log_set_quiet_def log_set_lock_def)
  have add: "take (first_free (L s)) (L_callbacks (L (snd (log_add_callback fn ud' lv s))))
       = take (first_free (L s)) (L_callbacks (L s))"
    by (simp add: log_add_callback_eq)
  from calls kept setters add show ?thesis
    by blast
qed

text \<open>
  An instance: a sink of level \<^verbatim>\<open>LOG_WARN\<close>, then a file sink of level \<^verbatim>\<open>LOG_TRACE\<close>;
  the dispatch is at \<^verbatim>\<open>LOG_INFO\<close>.
\<close>

theorem log_log_registration_order_witness:
  "filter is_sink_call
     (log_log_actions tick_clock LOG_INFO ''main.c'' 10 ''x'' []
        (snd (add_all two_regs state_init))) =
   [Sink_call Console stdout_callback (handed LOG_INFO ''main.c'' 10 ''x'' [] 100 STDERR),
    Sink_call (Slot 1) file_callback (handed LOG_INFO ''main.c'' 10 ''x'' [] 100 (Ptr 2))]"
proof -
  have h1: "\<forall>r\<in>set two_regs. fst r \<noteq> NULL_fn"
    by (simp add: two_regs_def)
  let ?s = "snd (add_all two_regs state_init)"
  have a: "filter is_sink_call (log_log_actions tick_clock LOG_INFO ''main.c'' 10 ''x'' [] ?s) =
     (if \<not> L_quiet (L ?s) \<and> level_int (L_level (L ?s)) \<le> level_int LOG_INFO
      then [Sink_call Console stdout_callback
              (handed LOG_INFO ''main.c'' 10 ''x'' [] (tick_clock (clock_reads ?s)) STDERR)]
      else []) @
     map (\<lambda>(i, r). Sink_call (Slot i) (fst r)
            (handed LOG_INFO ''main.c'' 10 ''x'' [] (tick_clock (clock_reads ?s)) (fst (snd r))))
       (filter (\<lambda>(i, r). level_int (snd (snd r)) \<le> level_int LOG_INFO)
          (enumerate 0 (take MAX_CALLBACKS two_regs)))"
    by (rule log_log_registration_order[OF h1 refl, THEN conjunct1])
  have b: "(if \<not> L_quiet (L ?s) \<and> level_int (L_level (L ?s)) \<le> level_int LOG_INFO
      then [Sink_call Console stdout_callback
              (handed LOG_INFO ''main.c'' 10 ''x'' [] (tick_clock (clock_reads ?s)) STDERR)]
      else []) @
     map (\<lambda>(i, r). Sink_call (Slot i) (fst r)
            (handed LOG_INFO ''main.c'' 10 ''x'' [] (tick_clock (clock_reads ?s)) (fst (snd r))))
       (filter (\<lambda>(i, r). level_int (snd (snd r)) \<le> level_int LOG_INFO)
          (enumerate 0 (take MAX_CALLBACKS two_regs))) =
   [Sink_call Console stdout_callback (handed LOG_INFO ''main.c'' 10 ''x'' [] 100 STDERR),
    Sink_call (Slot 1) file_callback (handed LOG_INFO ''main.c'' 10 ''x'' [] 100 (Ptr 2))]"
    by code_simp
  show ?thesis
    by (simp only: a b)
qed

section \<open>The lock hook\<close>


section \<open>The file sink\<close>

text \<open>
  C8. \<^verbatim>\<open>log_add_fp(fp, level)\<close> returns what \<^verbatim>\<open>log_add_callback(file_callback, fp, level)\<close>
  returns and leaves the same state: the first free slot receives \<^verbatim>\<open>file_callback\<close>
  with \<open>fp\<close> as its context and 0 is returned, or, when no slot is free, -1 is returned
  and the state is unchanged.
\<close>

theorem log_add_fp_refines:
  "log_add_fp fp level s = log_add_callback file_callback fp level s
   \<and> log_add_fp fp level s =
       (if first_free (L s) < MAX_CALLBACKS
        then (0, s\<lparr>L := (L s)\<lparr>L_callbacks := (L_callbacks (L s))
                [first_free (L s) :=
                   \<lparr>cb_fn = file_callback, cb_udata = fp, cb_level = level\<rparr>]\<rparr>\<rparr>)
        else (- 1, s))"
  by (simp add: log_add_fp_def log_add_callback_eq)

section \<open>The registry during a dispatch\<close>

text \<open>
  C10, as amended. \<^verbatim>\<open>log_log\<close> itself does not write to the struct \<^verbatim>\<open>L\<close>: when the lock
  hook and the caller's sinks do not write to \<^verbatim>\<open>L\<close>, then after a dispatch the level, the
  quiet flag, the lock hook and its context, and every slot of \<^verbatim>\<open>L.callbacks\<close> are what
  they were before, for every input and every state.
\<close>

theorem log_log_run_frame:
  assumes "\<forall>n es. L (snd (user n es)) = L (snd es)"
    and "\<forall>f b u s. L (hook f b u s) = L s"
  shows "L (log_log_run user hook clk level file line fmt args s) = L s"
proof -
  have lk: "L (lock_run hook t) = L t" for t
    using assms(2) by (simp add: lock_run_def emit_def split: option.split)
  have ul: "L (unlock_run hook t) = L t" for t
    using assms(2) by (simp add: unlock_run_def emit_def split: option.split)
  show ?thesis
    using assms(1)
    by (simp add: log_log_run_def Let_def ul L_log_log_loop_run L_call_sink_run lk)
qed

text \<open>
  An instance: the registered sink reads the clock itself, which changes the state but
  not \<^verbatim>\<open>L\<close>.
\<close>

theorem log_log_run_frame_witness:
  "L (log_log_run clock_sink idle_hook tick_clock LOG_ERROR ''main.c'' 10 ''x'' [] warn_state)
     = L warn_state"
proof -
  have h1: "\<forall>n es. L (snd (clock_sink n es)) = L (snd es)"
    by (simp add: clock_sink_def)
  have h2: "\<forall>f b u s. L (idle_hook f b u s) = L s"
    by (simp add: idle_hook_def)
  show ?thesis
    by (rule log_log_run_frame[OF h1 h2])
qed

text \<open>
  Without the condition on the caller's code the claim fails. The sink in slot 0
  calls \<^verbatim>\<open>log_add_callback\<close> during the dispatch: slot 1, which was free, holds a sink when
  \<^verbatim>\<open>log_log\<close> returns, and the loop, which reads the slots as it goes, has called that sink
  too.
\<close>

theorem log_log_run_frame_counterexample:
  "L (log_log_run registering_sink idle_hook tick_clock LOG_INFO ''main.c'' 10 ''x'' []
        reentrant_state) \<noteq> L reentrant_state
   \<and> called_sinks (trace (log_log_run registering_sink idle_hook tick_clock LOG_INFO
        ''main.c'' 10 ''x'' [] reentrant_state)) = [Console, Slot 0, Slot 1]
   \<and> cb_fn (L_callbacks (L reentrant_state) ! 1) = NULL_fn
   \<and> cb_fn (L_callbacks (L (log_log_run registering_sink idle_hook tick_clock LOG_INFO
        ''main.c'' 10 ''x'' [] reentrant_state)) ! 1) = user_fn 51"
  by code_simp

end
